theory Spec2Isabelle
  imports Complex_Main "HOL-Library.AList" "HOL-Library.Multiset"
begin

section \<open>JavaScript objects used as dictionaries\<close>

text \<open>
  The graph of \<^verbatim>\<open>src/index.js\<close> keeps its state in plain JavaScript objects whose
  keys are node identifiers (strings). An object that the code enumerates with
  \<^verbatim>\<open>Object.keys\<close> is an association list in creation order of its keys: assigning
  to an existing key keeps its place, assigning to a new key appends it, \<^verbatim>\<open>delete\<close>
  removes it. \<^verbatim>\<open>Object.keys\<close> lists the keys that are canonical array indices first,
  in ascending numeric order, and then all other keys in creation order.

  Scope of the model: identifiers are ordinary own keys, the empty string included. The
  property names that every object inherits from \<^verbatim>\<open>Object.prototype\<close> (\<^verbatim>\<open>constructor\<close>,
  \<^verbatim>\<open>toString\<close>, \<^verbatim>\<open>valueOf\<close>, \<^verbatim>\<open>hasOwnProperty\<close>, \<^verbatim>\<open>__proto__\<close> and the like) are
  outside of it: a lookup of such a name in an object that lacks it finds the inherited
  value, which the association lists do not model. Numbers are real numbers extended by
  \<^verbatim>\<open>Infinity\<close>, so the rounding of IEEE doubles and \<^verbatim>\<open>NaN\<close> weights are not modelled.
\<close>

type_synonym NodeId = string
type_synonym EdgeWeight = real
type_synonym EncodedEdge = string
type_synonym EdgeId = string
type_synonym 'v object = "(string \<times> 'v) list"

definition is_digit :: "char \<Rightarrow> bool" where
  "is_digit c = (c \<in> set ''0123456789'')"

definition digit_value :: "char \<Rightarrow> nat" where
  "digit_value c = of_char c - 48"

definition decimal_value :: "string \<Rightarrow> nat" where
  "decimal_value s = foldl (\<lambda>n c. 10 * n + digit_value c) 0 s"

definition array_index :: "string \<Rightarrow> nat option" where
  "array_index s =
     (if s \<noteq> [] \<and> list_all is_digit s \<and> (s = ''0'' \<or> hd s \<noteq> CHR ''0'')
         \<and> decimal_value s < 4294967295
      then Some (decimal_value s) else None)"

definition own_keys_order :: "string list \<Rightarrow> string list" where
  "own_keys_order ks =
     sort_key (\<lambda>k. the (array_index k)) (filter (\<lambda>k. array_index k \<noteq> None) ks)
     @ filter (\<lambda>k. array_index k = None) ks"

definition Object_keys :: "'v object \<Rightarrow> string list" where
  "Object_keys obj = own_keys_order (map fst obj)"

lemma array_index_examples:
  "array_index ''2'' = Some 2" "array_index ''10'' = Some 10" "array_index ''01'' = None"
  "array_index ''b'' = None" "array_index ''4294967295'' = None"
  by (simp_all add: array_index_def is_digit_def decimal_value_def digit_value_def)

lemma own_keys_order_example:
  "own_keys_order [''b'', ''10'', ''2'', ''01''] = [''2'', ''10'', ''b'', ''01'']"
  by (simp add: own_keys_order_def array_index_examples)

section \<open>The graph store\<close>

text \<open>
  \<^verbatim>\<open>edges\<close> is the adjacency list (enumerated, so an association list);
  \<^verbatim>\<open>edgeWeights\<close> and \<^verbatim>\<open>edgeIds\<close> are only read and written by key, so they are
  maps. An absent key is JavaScript's \<^verbatim>\<open>undefined\<close>.
\<close>

record graph =
  edges :: "NodeId list object"
  edgeWeights :: "EncodedEdge \<rightharpoonup> EdgeWeight"
  edgeIds :: "EncodedEdge \<rightharpoonup> EdgeId"

definition emptyGraph :: graph where
  "emptyGraph = \<lparr>edges = [], edgeWeights = Map.empty, edgeIds = Map.empty\<rparr>"

definition adjacent :: "graph \<Rightarrow> NodeId \<Rightarrow> NodeId list" where
  "adjacent g node = (case map_of (edges g) node of Some vs \<Rightarrow> vs | None \<Rightarrow> [])"

definition addNode :: "graph \<Rightarrow> NodeId \<Rightarrow> graph" where
  "addNode g node = g\<lparr>edges := AList.update node (adjacent g node) (edges g)\<rparr>"

definition encodeEdge :: "NodeId \<Rightarrow> NodeId \<Rightarrow> EncodedEdge" where
  "encodeEdge u v = u @ ''|'' @ v"

definition setEdgeWeight :: "graph \<Rightarrow> NodeId \<Rightarrow> NodeId \<Rightarrow> EdgeWeight \<Rightarrow> graph" where
  "setEdgeWeight g u v weight = g\<lparr>edgeWeights := (edgeWeights g)(encodeEdge u v \<mapsto> weight)\<rparr>"

definition getEdgeWeight :: "graph \<Rightarrow> NodeId \<Rightarrow> NodeId \<Rightarrow> EdgeWeight" where
  "getEdgeWeight g u v = (case edgeWeights g (encodeEdge u v) of None \<Rightarrow> 1 | Some weight \<Rightarrow> weight)"

definition setEdgeId :: "graph \<Rightarrow> NodeId \<Rightarrow> NodeId \<Rightarrow> EdgeId \<Rightarrow> graph" where
  "setEdgeId g u v edgeId = g\<lparr>edgeIds := (edgeIds g)(encodeEdge u v \<mapsto> edgeId)\<rparr>"

definition getEdgeId :: "graph \<Rightarrow> NodeId \<Rightarrow> NodeId \<Rightarrow> EdgeId option" where
  "getEdgeId g u v = edgeIds g (encodeEdge u v)"

text \<open>
  \<^verbatim>\<open>addEdge(u, v, weight, edgeId)\<close>: both endpoints are added, \<^verbatim>\<open>v\<close> is pushed onto
  the array stored at \<^verbatim>\<open>edges[u]\<close>, and the two optional arguments are stored when
  they are not \<^verbatim>\<open>undefined\<close>.
\<close>

definition addEdge ::
  "graph \<Rightarrow> NodeId \<Rightarrow> NodeId \<Rightarrow> EdgeWeight option \<Rightarrow> EdgeId option \<Rightarrow> graph" where
  "addEdge g u v weight edgeId =
     (let g1 = addNode g u;
          g2 = addNode g1 v;
          g3 = g2\<lparr>edges := AList.update u (adjacent g2 u @ [v]) (edges g2)\<rparr>;
          g4 = (case weight of None \<Rightarrow> g3 | Some w \<Rightarrow> setEdgeWeight g3 u v w)
      in (case edgeId of None \<Rightarrow> g4 | Some i \<Rightarrow> setEdgeId g4 u v i))"

definition removeEdge :: "graph \<Rightarrow> NodeId \<Rightarrow> NodeId \<Rightarrow> graph" where
  "removeEdge g u v =
     (case map_of (edges g) u of
        None \<Rightarrow> g
      | Some _ \<Rightarrow>
          g\<lparr>edges := AList.update u (filter (\<lambda>v'. v' \<noteq> v) (adjacent g u)) (edges g),
            edgeIds := (edgeIds g)(encodeEdge u v := None)\<rparr>)"

text \<open>
  \<^verbatim>\<open>removeNode\<close>: the outer \<^verbatim>\<open>forEach\<close> runs over the keys taken at the start, the
  inner one over the array found at \<^verbatim>\<open>edges[u]\<close> when \<^verbatim>\<open>u\<close> is reached (for a key
  \<^verbatim>\<open>u\<close> that array is \<^verbatim>\<open>adjacent(u)\<close>); \<^verbatim>\<open>removeEdge\<close> replaces the stored array, the
  iteration keeps running over the old one.
\<close>

definition removeIncoming :: "NodeId \<Rightarrow> graph \<Rightarrow> NodeId \<Rightarrow> graph" where
  "removeIncoming node g u =
     foldl (\<lambda>g' v. if v = node then removeEdge g' u v else g') g (adjacent g u)"

definition removeNode :: "graph \<Rightarrow> NodeId \<Rightarrow> graph" where
  "removeNode g node =
     (let g' = foldl (removeIncoming node) g (Object_keys (edges g))
      in g'\<lparr>edges := AList.delete node (edges g')\<rparr>)"

text \<open>
  \<^verbatim>\<open>nodes()\<close> collects the keys of \<^verbatim>\<open>edges\<close> and the members of every adjacency
  array into the object \<^verbatim>\<open>nodeSet\<close> and returns its keys.
\<close>

definition nodes :: "graph \<Rightarrow> NodeId list" where
  "nodes g =
     Object_keys
       (foldl (\<lambda>nodeSet u. foldl (\<lambda>ns v. AList.update v True ns) (AList.update u True nodeSet) (adjacent g u))
          [] (Object_keys (edges g)))"

definition hasEdge :: "graph \<Rightarrow> NodeId \<Rightarrow> NodeId \<Rightarrow> bool" where
  "hasEdge g u v = (v \<in> set (adjacent g u))"

text \<open>
  Every graph built through the interface keeps the targets of its edges among the keys
  of \<^verbatim>\<open>edges\<close>: \<^verbatim>\<open>addEdge\<close> adds both endpoints, \<^verbatim>\<open>removeNode\<close> strips the incoming
  edges of the key it deletes.
\<close>

definition targets_are_keys :: "graph \<Rightarrow> bool" where
  "targets_are_keys g =
     (\<forall>u \<in> set (map fst (edges g)). \<forall>v \<in> set (adjacent g u). v \<in> set (map fst (edges g)))"

section \<open>Basic facts about the store\<close>

lemma set_own_keys_order [simp]: "set (own_keys_order ks) = set ks"
  by (auto simp: own_keys_order_def)

lemma distinct_own_keys_order [simp]: "distinct (own_keys_order ks) = distinct ks"
proof -
  have "distinct (own_keys_order ks) =
        (distinct (filter (\<lambda>k. array_index k \<noteq> None) ks) \<and> distinct (filter (\<lambda>k. array_index k = None) ks))"
    by (auto simp: own_keys_order_def)
  also have "\<dots> = distinct ks"
  proof (induction ks)
    case Nil
    then show ?case by simp
  next
    case (Cons k ks)
    then show ?case by auto
  qed
  finally show ?thesis .
qed

lemma set_Object_keys [simp]: "set (Object_keys obj) = fst ` set obj"
  by (simp add: Object_keys_def)

lemma adjacent_emptyGraph [simp]: "adjacent emptyGraph u = []"
  by (simp add: adjacent_def emptyGraph_def)

lemma adjacent_not_key: "u \<notin> fst ` set (edges g) \<Longrightarrow> adjacent g u = []"
proof -
  assume "u \<notin> fst ` set (edges g)"
  then have "map_of (edges g) u = None"
    by (simp add: map_of_eq_None_iff)
  then show ?thesis
    by (simp add: adjacent_def)
qed

lemma adjacent_nonempty_key: "v \<in> set (adjacent g u) \<Longrightarrow> u \<in> fst ` set (edges g)"
  by (cases "u \<in> fst ` set (edges g)") (simp_all add: adjacent_not_key)

lemma adjacent_addNode [simp]: "adjacent (addNode g n) u = adjacent g u"
  by (auto simp: adjacent_def addNode_def update_conv' split: option.splits)

lemma keys_addNode [simp]: "fst ` set (edges (addNode g n)) = insert n (fst ` set (edges g))"
  by (simp add: addNode_def dom_update)

lemma adjacent_setEdgeWeight [simp]: "adjacent (setEdgeWeight g a b w) u = adjacent g u"
  by (simp add: adjacent_def setEdgeWeight_def)

lemma adjacent_setEdgeId [simp]: "adjacent (setEdgeId g a b i) u = adjacent g u"
  by (simp add: adjacent_def setEdgeId_def)

lemma edges_setEdgeWeight [simp]: "edges (setEdgeWeight g a b w) = edges g"
  by (simp add: setEdgeWeight_def)

lemma edges_setEdgeId [simp]: "edges (setEdgeId g a b i) = edges g"
  by (simp add: setEdgeId_def)

lemma adjacent_edges_update [simp]:
  "adjacent (h\<lparr>edges := AList.update a vs (edges h)\<rparr>) u = (if u = a then vs else adjacent h u)"
  by (simp add: adjacent_def update_conv')

lemma adjacent_addEdge:
  "adjacent (addEdge g a b w i) u = (if u = a then adjacent g a @ [b] else adjacent g u)"
  by (cases w; cases i) (simp_all add: addEdge_def Let_def)

lemma keys_addEdge [simp]:
  "fst ` set (edges (addEdge g a b w i)) = insert a (insert b (fst ` set (edges g)))"
proof -
  let ?g2 = "addNode (addNode g a) b"
  have *: "fst ` set (AList.update a vs (edges ?g2)) = insert a (insert b (fst ` set (edges g)))" for vs
    by (auto simp: dom_update)
  show ?thesis
    by (cases w; cases i) (simp_all add: addEdge_def Let_def *)
qed

lemma adjacent_removeEdge:
  "adjacent (removeEdge g a b) u = (if u = a then filter (\<lambda>v. v \<noteq> b) (adjacent g a) else adjacent g u)"
  by (auto simp: removeEdge_def adjacent_def update_conv' split: option.splits)

lemma keys_removeEdge [simp]: "fst ` set (edges (removeEdge g a b)) = fst ` set (edges g)"
proof (cases "map_of (edges g) a")
  case None
  then show ?thesis by (simp add: removeEdge_def)
next
  case (Some vs)
  then have "(a, vs) \<in> set (edges g)"
    by (rule map_of_SomeD)
  then have "insert a (fst ` set (edges g)) = fst ` set (edges g)"
    by force
  with Some show ?thesis
    by (simp add: removeEdge_def dom_update)
qed

lemma foldl_removeEdge_adjacent:
  "adjacent (foldl (\<lambda>g' v. if v = node then removeEdge g' u v else g') g vs) u' =
     (if u' = u \<and> node \<in> set vs then filter (\<lambda>v. v \<noteq> node) (adjacent g u) else adjacent g u')"
  by (induction vs arbitrary: g) (auto simp: adjacent_removeEdge)

lemma foldl_removeEdge_keys:
  "fst ` set (edges (foldl (\<lambda>g' v. if v = node then removeEdge g' u v else g') g vs)) = fst ` set (edges g)"
  by (induction vs arbitrary: g) auto

lemma adjacent_removeIncoming:
  "adjacent (removeIncoming node g u) u' =
     (if u' = u then filter (\<lambda>v. v \<noteq> node) (adjacent g u) else adjacent g u')"
proof (cases "node \<in> set (adjacent g u)")
  case True
  then show ?thesis
    by (simp add: removeIncoming_def foldl_removeEdge_adjacent)
next
  case False
  then have "filter (\<lambda>v. v \<noteq> node) (adjacent g u) = adjacent g u"
    by (auto simp: filter_id_conv)
  with False show ?thesis
    by (simp add: removeIncoming_def foldl_removeEdge_adjacent)
qed

lemma keys_removeIncoming [simp]:
  "fst ` set (edges (removeIncoming node g u)) = fst ` set (edges g)"
  by (simp add: removeIncoming_def foldl_removeEdge_keys)

lemma foldl_removeIncoming_adjacent:
  "adjacent (foldl (removeIncoming node) g us) u' =
     (if u' \<in> set us then filter (\<lambda>v. v \<noteq> node) (adjacent g u') else adjacent g u')"
  by (induction us arbitrary: g) (auto simp: adjacent_removeIncoming)

lemma foldl_removeIncoming_keys [simp]:
  "fst ` set (edges (foldl (removeIncoming node) g us)) = fst ` set (edges g)"
  by (induction us arbitrary: g) auto

lemma adjacent_edges_delete [simp]:
  "adjacent (h\<lparr>edges := AList.delete a (edges h)\<rparr>) u = (if u = a then [] else adjacent h u)"
  by (simp add: adjacent_def delete_conv')

lemma adjacent_removeNode:
  "adjacent (removeNode g x) u = (if u = x then [] else filter (\<lambda>v. v \<noteq> x) (adjacent g u))"
proof -
  have "adjacent (foldl (removeIncoming x) g (Object_keys (edges g))) u = filter (\<lambda>v. v \<noteq> x) (adjacent g u)"
    by (cases "u \<in> fst ` set (edges g)") (simp_all add: foldl_removeIncoming_adjacent adjacent_not_key)
  then show ?thesis
    by (simp add: removeNode_def Let_def)
qed

lemma keys_removeNode: "fst ` set (edges (removeNode g x)) = fst ` set (edges g) - {x}"
proof -
  have "set (map fst (AList.delete x al)) = set (map fst al) - {x}" for al :: "(string \<times> string list) list"
    by (simp add: delete_keys)
  then show ?thesis
    using foldl_removeIncoming_keys [of x g "Object_keys (edges g)"]
    by (simp add: removeNode_def Let_def)
qed

lemma keys_foldl_update:
  "fst ` set (foldl (\<lambda>ns v. AList.update v True ns) ns vs) = fst ` set ns \<union> set vs"
  by (induction vs arbitrary: ns) (auto simp: dom_update)

lemma distinct_foldl_update:
  "distinct (map fst ns) \<Longrightarrow> distinct (map fst (foldl (\<lambda>ns v. AList.update v True ns) ns vs))"
  by (induction vs arbitrary: ns) (auto simp: distinct_update)

lemma keys_nodeSet:
  "fst ` set (foldl (\<lambda>nodeSet u. foldl (\<lambda>ns v. AList.update v True ns) (AList.update u True nodeSet) (adj u)) ns us)
     = fst ` set ns \<union> set us \<union> (\<Union>u \<in> set us. set (adj u))"
  by (induction us arbitrary: ns) (auto simp: keys_foldl_update dom_update)

lemma distinct_nodeSet:
  "distinct (map fst ns) \<Longrightarrow>
   distinct (map fst (foldl (\<lambda>nodeSet u. foldl (\<lambda>ns v. AList.update v True ns) (AList.update u True nodeSet) (adj u)) ns us))"
  by (induction us arbitrary: ns) (auto simp: distinct_foldl_update distinct_update)

lemma set_nodes:
  "set (nodes g) = fst ` set (edges g) \<union> (\<Union>u \<in> fst ` set (edges g). set (adjacent g u))"
  by (simp add: nodes_def keys_nodeSet)

lemma distinct_nodes [simp]: "distinct (nodes g)"
  by (simp add: nodes_def Object_keys_def distinct_nodeSet)

lemma hasEdge_nodes: "hasEdge g u v \<Longrightarrow> u \<in> set (nodes g) \<and> v \<in> set (nodes g)"
  using adjacent_nonempty_key [of v g u] by (auto simp: hasEdge_def set_nodes)


lemma targets_are_keys_iff:
  "targets_are_keys g = (\<forall>u v. v \<in> set (adjacent g u) \<longrightarrow> v \<in> fst ` set (edges g))"
proof
  assume a: "targets_are_keys g"
  show "\<forall>u v. v \<in> set (adjacent g u) \<longrightarrow> v \<in> fst ` set (edges g)"
  proof (intro allI impI)
    fix u v
    assume v: "v \<in> set (adjacent g u)"
    then have "u \<in> set (map fst (edges g))"
      using adjacent_nonempty_key [of v g u] by simp
    with a v have "v \<in> set (map fst (edges g))"
      unfolding targets_are_keys_def by blast
    then show "v \<in> fst ` set (edges g)"
      by simp
  qed
next
  assume "\<forall>u v. v \<in> set (adjacent g u) \<longrightarrow> v \<in> fst ` set (edges g)"
  then show "targets_are_keys g"
    unfolding targets_are_keys_def by simp
qed

lemma targets_are_keys_emptyGraph: "targets_are_keys emptyGraph"
  by (simp add: targets_are_keys_def emptyGraph_def)

lemma targets_are_keys_addNode: "targets_are_keys g \<Longrightarrow> targets_are_keys (addNode g n)"
  by (auto simp: targets_are_keys_iff)

lemma targets_are_keys_addEdge: "targets_are_keys g \<Longrightarrow> targets_are_keys (addEdge g a b w i)"
  by (auto simp: targets_are_keys_iff adjacent_addEdge split: if_splits)

lemma targets_are_keys_removeEdge: "targets_are_keys g \<Longrightarrow> targets_are_keys (removeEdge g a b)"
  by (auto simp: targets_are_keys_iff adjacent_removeEdge split: if_splits)

lemma targets_are_keys_removeNode: "targets_are_keys g \<Longrightarrow> targets_are_keys (removeNode g x)"
  by (auto simp: targets_are_keys_iff adjacent_removeNode keys_removeNode split: if_splits)

lemma targets_are_keys_setEdgeWeight: "targets_are_keys g \<Longrightarrow> targets_are_keys (setEdgeWeight g a b w)"
  by (simp add: targets_are_keys_iff)

lemma targets_are_keys_setEdgeId: "targets_are_keys g \<Longrightarrow> targets_are_keys (setEdgeId g a b i)"
  by (simp add: targets_are_keys_iff)

section \<open>Edge removal keeps the weight entry\<close>

text \<open>
  Claim C8. Let the edge \<open>u \<rightarrow> v\<close> have been added with the explicit weight \<open>w\<close>, or be
  present and have had \<^verbatim>\<open>setEdgeWeight(u, v, w)\<close> applied. After \<^verbatim>\<open>removeEdge(u, v)\<close> the
  edge is gone and its identifier is absent, but \<^verbatim>\<open>getEdgeWeight(u, v)\<close> is still \<open>w\<close>, and
  it is \<open>w\<close> again once the edge is added back without a weight argument.
\<close>

theorem removeEdge_keeps_weight:
  assumes "g = addEdge g0 u v (Some w) i \<or> (hasEdge g0 u v \<and> g = setEdgeWeight g0 u v w)"
  shows "\<not> hasEdge (removeEdge g u v) u v \<and> getEdgeId (removeEdge g u v) u v = None
     \<and> getEdgeWeight (removeEdge g u v) u v = w
     \<and> getEdgeWeight (addEdge (removeEdge g u v) u v None i') u v = w"
proof -
  have key: "u \<in> fst ` set (edges g)"
    using assms adjacent_nonempty_key [of v g0 u] by (auto simp: hasEdge_def)
  then obtain vs where vs: "map_of (edges g) u = Some vs"
    by (metis map_of_eq_None_iff not_None_eq)
  have w: "edgeWeights g (encodeEdge u v) = Some w"
    using assms by (cases i) (auto simp: addEdge_def Let_def setEdgeWeight_def setEdgeId_def addNode_def)
  have 1: "\<not> hasEdge (removeEdge g u v) u v"
    by (simp add: hasEdge_def adjacent_removeEdge)
  have 2: "getEdgeId (removeEdge g u v) u v = None"
    using vs by (simp add: getEdgeId_def removeEdge_def)
  have 3: "edgeWeights (removeEdge g u v) = edgeWeights g"
    using vs by (simp add: removeEdge_def)
  have 4: "edgeWeights (addEdge h u v None i') (encodeEdge u v) = edgeWeights h (encodeEdge u v)" for h
    by (cases i') (simp_all add: addEdge_def Let_def setEdgeId_def addNode_def)
  show ?thesis
    using 1 2 3 4 [of "removeEdge g u v"] w by (simp add: getEdgeWeight_def)
qed

theorem removeEdge_keeps_weight_witness:
  "\<not> hasEdge (removeEdge (addEdge emptyGraph ''a'' ''b'' (Some 5) (Some ''e1'')) ''a'' ''b'') ''a'' ''b''
   \<and> getEdgeId (removeEdge (addEdge emptyGraph ''a'' ''b'' (Some 5) (Some ''e1'')) ''a'' ''b'') ''a'' ''b'' = None
   \<and> getEdgeWeight (removeEdge (addEdge emptyGraph ''a'' ''b'' (Some 5) (Some ''e1'')) ''a'' ''b'') ''a'' ''b'' = 5
   \<and> getEdgeWeight (addEdge (removeEdge (addEdge emptyGraph ''a'' ''b'' (Some 5) (Some ''e1'')) ''a'' ''b'') ''a'' ''b'' None None) ''a'' ''b'' = 5"
  using removeEdge_keeps_weight [of "addEdge emptyGraph ''a'' ''b'' (Some 5) (Some ''e1'')" emptyGraph "''a''" "''b''" 5 "Some ''e1''" None]
  by simp

section \<open>Node removal\<close>






section \<open>Serialization\<close>

text \<open>
  The serialized form: \<^verbatim>\<open>nodes\<close> is a list of records with the single field \<^verbatim>\<open>id\<close>,
  identified here with the identifiers themselves; a link carries the fields \<^verbatim>\<open>source\<close>,
  \<^verbatim>\<open>target\<close>, \<^verbatim>\<open>weight\<close> and \<^verbatim>\<open>id\<close> (written with the prefix \<open>link_\<close> here). The
  identifier of an edge is \<^verbatim>\<open>undefined\<close> when none was set.
\<close>

record Link =
  link_source :: NodeId
  link_target :: NodeId
  link_weight :: EdgeWeight
  link_id :: "EdgeId option"

record Serialized =
  node_ids :: "NodeId list"
  links :: "Link list"


definition deserialize :: "graph \<Rightarrow> Serialized \<Rightarrow> graph" where
  "deserialize g serialized =
     foldl (\<lambda>g' link. addEdge g' (link_source link) (link_target link) (Some (link_weight link)) None)
       (foldl addNode g (node_ids serialized)) (links serialized)"



lemma array_index_letters [simp]:
  "array_index ''a'' = None" "array_index ''b'' = None" "array_index ''c'' = None" "array_index ''d'' = None"
  by (simp_all add: array_index_def is_digit_def)








lemma adjacent_foldl_addNode [simp]: "adjacent (foldl addNode h ns) u = adjacent h u"
  by (induction ns arbitrary: h) simp_all

lemma keys_foldl_addNode [simp]: "fst ` set (edges (foldl addNode h ns)) = fst ` set (edges h) \<union> set ns"
  by (induction ns arbitrary: h) auto

lemma edgeWeights_addNode [simp]: "edgeWeights (addNode h n) = edgeWeights h"
  by (simp add: addNode_def)

lemma edgeWeights_foldl_addNode [simp]: "edgeWeights (foldl addNode h ns) = edgeWeights h"
  by (induction ns arbitrary: h) simp_all


























section \<open>Depth-first search\<close>

datatype error = CycleError string | Error string

record options =
  includeSourceNodes :: bool
  errorOnCycle :: bool
  collectCycles :: bool

record dfs_state =
  visited :: "NodeId set"
  visiting :: "NodeId set"
  nodeList :: "NodeId list"
  cycles :: "NodeId object"

function DFSVisit :: "graph \<Rightarrow> options \<Rightarrow> NodeId \<Rightarrow> NodeId option \<Rightarrow> dfs_state \<Rightarrow> error + dfs_state"
  and DFSVisit_forEach :: "graph \<Rightarrow> options \<Rightarrow> NodeId list \<Rightarrow> NodeId option \<Rightarrow> dfs_state \<Rightarrow> error + dfs_state"
where
  "DFSVisit g opts node from s =
     (if node \<in> visiting s \<and> errorOnCycle opts then Inl (CycleError ''Cycle found'')
      else if node \<in> visiting s \<and> collectCycles opts then
        Inr (s\<lparr>cycles := AList.update (case from of None \<Rightarrow> ''undefined'' | Some f \<Rightarrow> f) node (cycles s)\<rparr>)
      else if node \<notin> visited s then
        (case DFSVisit_forEach g opts (adjacent g node) (Some node)
                (s\<lparr>visited := insert node (visited s), visiting := insert node (visiting s)\<rparr>) of
           Inl e \<Rightarrow> Inl e
         | Inr s' \<Rightarrow> Inr (s'\<lparr>visiting := visiting s' - {node}, nodeList := nodeList s' @ [node]\<rparr>))
      else Inr s)"
| "DFSVisit_forEach g opts [] from s = Inr s"
| "DFSVisit_forEach g opts (v # vs) from s =
     (case DFSVisit g opts v from s of
        Inl e \<Rightarrow> Inl e
      | Inr s' \<Rightarrow> DFSVisit_forEach g opts vs from s')"
  by pat_completeness auto


lemma DFSVisit_visited_mono_dom:
  "DFSVisit_DFSVisit_forEach_dom (Inl (g, opts, node, from, s)) \<Longrightarrow>
     DFSVisit g opts node from s = Inr s' \<Longrightarrow> visited s \<subseteq> visited s'"
  "DFSVisit_DFSVisit_forEach_dom (Inr (g, opts, vs, from, s)) \<Longrightarrow>
     DFSVisit_forEach g opts vs from s = Inr s' \<Longrightarrow> visited s \<subseteq> visited s'"
proof (induction g opts node "from" s and g opts vs "from" s arbitrary: s' and s' rule: DFSVisit_DFSVisit_forEach.pinduct)
  case (1 g opts node "from" s)
  then show ?case
    by (auto simp: DFSVisit.psimps split: if_splits sum.splits)
next
  case (2 g opts "from" s)
  then show ?case
    by (simp add: DFSVisit_forEach.psimps)
next
  case (3 g opts v vs "from" s)
  then show ?case
    by (auto simp: DFSVisit_forEach.psimps split: sum.splits)
qed

lemma adjacent_subset_nodes: "set (adjacent g u) \<subseteq> set (nodes g)"
  using hasEdge_nodes [of g u] by (auto simp: hasEdge_def)

termination DFSVisit
  apply (relation "inv_image (finite_psubset <*lex*> less_than)
     (\<lambda>x. case x of
        Inl (g, opts, node, from, s) \<Rightarrow> (insert node (set (nodes g)) - visited s, 0::nat)
      | Inr (g, opts, vs, from, s) \<Rightarrow> (set (nodes g) \<union> set vs - visited s, Suc (length vs)))")
  subgoal
    by auto
  subgoal for g opts node "from" s
    using adjacent_subset_nodes [of g node] by (auto simp: finite_psubset_def)
  subgoal for g opts v vs "from" s
    by (auto simp: finite_psubset_def)
  subgoal for g opts v vs "from" s s'
    using DFSVisit_visited_mono_dom(1) [of g opts v "from" s s']
    by (auto simp: finite_psubset_def)
  done


text \<open>
  The second branch of \<^verbatim>\<open>depthFirstSearchBase\<close>: the successors of every source are
  visited, with the source as the node the visit comes from.
\<close>

fun visitSuccessors :: "graph \<Rightarrow> options \<Rightarrow> NodeId list \<Rightarrow> dfs_state \<Rightarrow> error + dfs_state" where
  "visitSuccessors g opts [] s = Inr s"
| "visitSuccessors g opts (node # ns) s =
     (case DFSVisit_forEach g opts (adjacent g node) (Some node) s of
        Inl e \<Rightarrow> Inl e
      | Inr s' \<Rightarrow> visitSuccessors g opts ns s')"

datatype dfs_result = NodeList "NodeId list" | Cycles "NodeId object"

definition depthFirstSearchBase ::
  "graph \<Rightarrow> string \<Rightarrow> NodeId list option \<Rightarrow> options \<Rightarrow> error + dfs_result" where
  "depthFirstSearchBase g type sourceNodes opts =
     (let sourceNodes' = (case sourceNodes of None \<Rightarrow> nodes g | Some ns \<Rightarrow> ns);
          s0 = \<lparr>visited = {}, visiting = {}, nodeList = [], cycles = []\<rparr>;
          r = (if includeSourceNodes opts then DFSVisit_forEach g opts sourceNodes' None s0
               else visitSuccessors g opts sourceNodes' (s0\<lparr>visited := visited s0 \<union> set sourceNodes'\<rparr>))
      in case r of
           Inl e \<Rightarrow> Inl e
         | Inr s \<Rightarrow> Inr (if type = ''normal'' then NodeList (nodeList s) else Cycles (cycles s)))"

definition depthFirstSearch :: "graph \<Rightarrow> NodeId list option \<Rightarrow> options \<Rightarrow> error + dfs_result" where
  "depthFirstSearch g sourceNodes opts =
     depthFirstSearchBase g ''normal'' sourceNodes (opts\<lparr>collectCycles := False\<rparr>)"






definition edge_rel :: "graph \<Rightarrow> (NodeId \<times> NodeId) set" where
  "edge_rel g = {(u, v). hasEdge g u v}"




declare DFSVisit.simps [simp del]






































section \<open>Lowest common ancestors\<close>

text \<open>
  The state shared by the two visits of \<^verbatim>\<open>lowestCommonAncestors\<close>: the \<^verbatim>\<open>visited\<close>
  object handed down the recursion and the two arrays of the enclosing call.
\<close>

record lca_state =
  lca_visited :: "NodeId set"
  node1Ancestors :: "NodeId list"
  lcas :: "NodeId list"

function CA1Visit :: "graph \<Rightarrow> NodeId \<Rightarrow> NodeId \<Rightarrow> lca_state \<Rightarrow> bool \<times> lca_state"
  and CA1Visit_every :: "graph \<Rightarrow> NodeId \<Rightarrow> NodeId list \<Rightarrow> lca_state \<Rightarrow> bool \<times> lca_state"
where
  "CA1Visit g node2 node s =
     (if node \<notin> lca_visited s then
        (let s1 = s\<lparr>lca_visited := insert node (lca_visited s), node1Ancestors := node1Ancestors s @ [node]\<rparr>
         in if node = node2 then (False, s1\<lparr>lcas := lcas s1 @ [node]\<rparr>)
            else CA1Visit_every g node2 (adjacent g node) s1)
      else (True, s))"
| "CA1Visit_every g node2 [] s = (True, s)"
| "CA1Visit_every g node2 (v # vs) s =
     (let r = CA1Visit g node2 v s
      in if fst r then CA1Visit_every g node2 vs (snd r) else (False, snd r))"
  by pat_completeness auto

lemma CA1Visit_visited_mono_dom:
  "CA1Visit_CA1Visit_every_dom (Inl (g, node2, node, s)) \<Longrightarrow>
     lca_visited s \<subseteq> lca_visited (snd (CA1Visit g node2 node s))"
  "CA1Visit_CA1Visit_every_dom (Inr (g, node2, vs, s)) \<Longrightarrow>
     lca_visited s \<subseteq> lca_visited (snd (CA1Visit_every g node2 vs s))"
proof (induction g node2 node s and g node2 vs s rule: CA1Visit_CA1Visit_every.pinduct)
  case (1 g node2 node s)
  then show ?case
    by (auto simp: CA1Visit.psimps Let_def)
next
  case (2 g node2 s)
  then show ?case
    by (simp add: CA1Visit_every.psimps)
next
  case (3 g node2 v vs s)
  then show ?case
    by (auto simp: CA1Visit_every.psimps Let_def)
qed

termination CA1Visit
  apply (relation "inv_image (finite_psubset <*lex*> less_than)
     (\<lambda>x. case x of
        Inl (g, node2, node, s) \<Rightarrow> (insert node (set (nodes g)) - lca_visited s, 0::nat)
      | Inr (g, node2, vs, s) \<Rightarrow> (set (nodes g) \<union> set vs - lca_visited s, Suc (length vs)))")
  subgoal
    by auto
  subgoal for g node2 node s
    using adjacent_subset_nodes [of g node] by (auto simp: finite_psubset_def)
  subgoal for g node2 v vs s
    by (auto simp: finite_psubset_def)
  subgoal for g node2 v vs s
    using CA1Visit_visited_mono_dom(1) [of g node2 v s]
    by (auto simp: finite_psubset_def)
  done

function CA2Visit :: "graph \<Rightarrow> NodeId \<Rightarrow> lca_state \<Rightarrow> lca_state"
  and CA2Visit_forEach :: "graph \<Rightarrow> NodeId list \<Rightarrow> lca_state \<Rightarrow> lca_state"
where
  "CA2Visit g node s =
     (if node \<notin> lca_visited s then
        (let s1 = s\<lparr>lca_visited := insert node (lca_visited s)\<rparr>
         in if node \<in> set (node1Ancestors s1) then s1\<lparr>lcas := lcas s1 @ [node]\<rparr>
            else if length (lcas s1) = 0 then CA2Visit_forEach g (adjacent g node) s1
            else s1)
      else s)"
| "CA2Visit_forEach g [] s = s"
| "CA2Visit_forEach g (v # vs) s = CA2Visit_forEach g vs (CA2Visit g v s)"
  by pat_completeness auto

lemma CA2Visit_visited_mono_dom:
  "CA2Visit_CA2Visit_forEach_dom (Inl (g, node, s)) \<Longrightarrow> lca_visited s \<subseteq> lca_visited (CA2Visit g node s)"
  "CA2Visit_CA2Visit_forEach_dom (Inr (g, vs, s)) \<Longrightarrow> lca_visited s \<subseteq> lca_visited (CA2Visit_forEach g vs s)"
proof (induction g node s and g vs s rule: CA2Visit_CA2Visit_forEach.pinduct)
  case (1 g node s)
  then show ?case
    by (auto simp: CA2Visit.psimps Let_def)
next
  case (2 g s)
  then show ?case
    by (simp add: CA2Visit_forEach.psimps)
next
  case (3 g v vs s)
  then show ?case
    by (auto simp: CA2Visit_forEach.psimps)
qed

termination CA2Visit
  apply (relation "inv_image (finite_psubset <*lex*> less_than)
     (\<lambda>x. case x of
        Inl (g, node, s) \<Rightarrow> (insert node (set (nodes g)) - lca_visited s, 0::nat)
      | Inr (g, vs, s) \<Rightarrow> (set (nodes g) \<union> set vs - lca_visited s, Suc (length vs)))")
  subgoal
    by auto
  subgoal for g node s
    using adjacent_subset_nodes [of g node] by (auto simp: finite_psubset_def)
  subgoal for g v vs s
    by (auto simp: finite_psubset_def)
  subgoal for g v vs s
    using CA2Visit_visited_mono_dom(1) [of g v s]
    by (auto simp: finite_psubset_def)
  done




declare CA1Visit.simps [simp del] CA2Visit.simps [simp del]













section \<open>Shortest path\<close>

text \<open>
  JavaScript numbers as they occur in \<^verbatim>\<open>shortestPath\<close>: real numbers and \<^verbatim>\<open>Infinity\<close>.
  A missing entry of \<^verbatim>\<open>d\<close> is \<^verbatim>\<open>undefined\<close>, and every comparison with \<^verbatim>\<open>undefined\<close> (or
  with the \<^verbatim>\<open>NaN\<close> that arithmetic on it gives) is false.
\<close>

datatype number = Finite real | Infinity

fun number_less :: "number \<Rightarrow> number \<Rightarrow> bool" where
  "number_less (Finite a) (Finite b) = (a < b)"
| "number_less (Finite a) Infinity = True"
| "number_less Infinity _ = False"

fun number_add :: "number \<Rightarrow> real \<Rightarrow> number" where
  "number_add (Finite a) w = Finite (a + w)"
| "number_add Infinity w = Infinity"

text \<open>
  The tables of \<^verbatim>\<open>shortestPath\<close>: \<^verbatim>\<open>d\<close> (upper bounds), \<^verbatim>\<open>p\<close> (predecessors) and the
  object \<^verbatim>\<open>q\<close> whose keys are the nodes still in the queue.
\<close>

record dijkstra_state =
  sp_d :: "NodeId \<rightharpoonup> number"
  sp_p :: "NodeId \<rightharpoonup> NodeId"
  sp_q :: "bool object"

definition initializeSingleSource :: "graph \<Rightarrow> NodeId \<Rightarrow> NodeId \<Rightarrow> error + (NodeId \<rightharpoonup> number)" where
  "initializeSingleSource g source destination =
     (let d0 = foldl (\<lambda>d node. d(node \<mapsto> Infinity)) Map.empty (nodes g)
      in if d0 source \<noteq> Some Infinity then Inl (Error ''Source node is not in the graph'')
         else if d0 destination \<noteq> Some Infinity then Inl (Error ''Destination node is not in the graph'')
         else Inr (d0(source \<mapsto> Finite 0)))"

definition initializePriorityQueue :: "graph \<Rightarrow> bool object" where
  "initializePriorityQueue g = foldl (\<lambda>q node. AList.update node True q) [] (nodes g)"

definition priorityQueueEmpty :: "bool object \<Rightarrow> bool" where
  "priorityQueueEmpty q = (length (Object_keys q) = 0)"

text \<open>
  \<^verbatim>\<open>extractMin\<close> scans the keys of \<^verbatim>\<open>q\<close> for the first node with the least \<^verbatim>\<open>d\<close>. When no
  node has a finite \<^verbatim>\<open>d\<close> it empties the queue and returns \<^verbatim>\<open>null\<close>.
\<close>

definition extractMin :: "(NodeId \<rightharpoonup> number) \<Rightarrow> bool object \<Rightarrow> NodeId option \<times> bool object" where
  "extractMin d q =
     (let (m, minNode) =
            foldl (\<lambda>(m, minNode) node.
                     case d node of
                       Some x \<Rightarrow> if number_less x m then (x, Some node) else (m, minNode)
                     | None \<Rightarrow> (m, minNode))
              (Infinity, None) (Object_keys q)
      in case minNode of
           None \<Rightarrow> (None, [])
         | Some n \<Rightarrow> (Some n, AList.delete n q))"

definition relax :: "graph \<Rightarrow> NodeId \<Rightarrow> dijkstra_state \<Rightarrow> NodeId \<Rightarrow> dijkstra_state" where
  "relax g u s v =
     (let w = getEdgeWeight g u v
      in case (sp_d s v, sp_d s u) of
           (Some dv, Some du) \<Rightarrow>
             if number_less (number_add du w) dv
             then s\<lparr>sp_d := (sp_d s)(v \<mapsto> number_add du w), sp_p := (sp_p s)(v \<mapsto> u)\<rparr>
             else s
         | _ \<Rightarrow> s)"

lemma extractMin_scan_member:
  "foldl (\<lambda>(m, minNode) node.
            case d node of
              Some x \<Rightarrow> if number_less x m then (x, Some node) else (m, minNode)
            | None \<Rightarrow> (m, minNode)) (m0, n0) ks = (m, Some n) \<Longrightarrow> n0 = Some n \<or> n \<in> set ks"
  by (induction ks arbitrary: m0 n0) (auto split: option.splits if_splits)

lemma length_delete_less: "k \<in> fst ` set al \<Longrightarrow> length (AList.delete k al) < length al"
proof (induction al)
  case Nil
  then show ?case by simp
next
  case (Cons a al)
  then show ?case
    using length_delete_le [of k al] by (cases "fst a = k") auto
qed

lemma extractMin_Some:
  assumes "extractMin d q = (Some u, q')"
  shows "u \<in> fst ` set q \<and> q' = AList.delete u q"
  using assms extractMin_scan_member [of d Infinity None "Object_keys q"]
  by (auto simp: extractMin_def split: prod.splits option.splits)

lemma extractMin_shrinks:
  assumes "extractMin d q = (Some u, q')"
  shows "length q' < length q"
  using extractMin_Some [OF assms] by (simp add: length_delete_less)

function dijkstra_loop :: "graph \<Rightarrow> dijkstra_state \<Rightarrow> dijkstra_state" where
  "dijkstra_loop g s =
     (if priorityQueueEmpty (sp_q s) then s
      else case extractMin (sp_d s) (sp_q s) of
             (None, q') \<Rightarrow> s\<lparr>sp_q := q'\<rparr>
           | (Some u, q') \<Rightarrow> dijkstra_loop g (foldl (relax g u) (s\<lparr>sp_q := q'\<rparr>) (adjacent g u)))"
  by pat_completeness auto

lemma sp_q_relax [simp]: "sp_q (relax g u s v) = sp_q s"
  by (simp add: relax_def Let_def split: option.splits)

lemma sp_q_foldl_relax [simp]: "sp_q (foldl (relax g u) s vs) = sp_q s"
  by (induction vs arbitrary: s) simp_all

termination dijkstra_loop
  by (relation "measure (\<lambda>(g, s). length (sp_q s))") (auto dest: extractMin_shrinks [OF sym])

text \<open>
  The loop of \<^verbatim>\<open>path()\<close> follows the predecessors while \<^verbatim>\<open>p[node]\<close> is truthy: it stops
  at a node without predecessor and also at a node whose predecessor is the empty
  string. Nothing in the loop itself bounds the walk, so it is a partial function.
\<close>

partial_function (option) path_loop ::
  "graph \<Rightarrow> (NodeId \<rightharpoonup> NodeId) \<Rightarrow> NodeId \<Rightarrow> NodeId list \<Rightarrow> real \<Rightarrow> (NodeId \<times> NodeId list \<times> real) option" where
  "path_loop g p node nodeList' weight =
     (case p node of
        None \<Rightarrow> Some (node, nodeList', weight)
      | Some u \<Rightarrow>
          if u = [] then Some (node, nodeList', weight)
          else path_loop g p u (nodeList' @ [node]) (weight + getEdgeWeight g u node))"

declare path_loop.simps [code]

definition path :: "graph \<Rightarrow> (NodeId \<rightharpoonup> NodeId) \<Rightarrow> NodeId \<Rightarrow> NodeId \<Rightarrow> (error + NodeId list \<times> real) option" where
  "path g p source destination =
     (case path_loop g p destination [] 0 of
        None \<Rightarrow> None
      | Some (node, nodeList', weight) \<Rightarrow>
          Some (if node \<noteq> source then Inl (Error ''No path found'')
                else Inr (rev (nodeList' @ [node]), weight)))"

definition dijkstra :: "graph \<Rightarrow> NodeId \<Rightarrow> NodeId \<Rightarrow> error + dijkstra_state" where
  "dijkstra g source destination =
     (case initializeSingleSource g source destination of
        Inl e \<Rightarrow> Inl e
      | Inr d0 \<Rightarrow> Inr (dijkstra_loop g \<lparr>sp_d = d0, sp_p = Map.empty, sp_q = initializePriorityQueue g\<rparr>))"

definition shortestPath :: "graph \<Rightarrow> NodeId \<Rightarrow> NodeId \<Rightarrow> (error + NodeId list \<times> real) option" where
  "shortestPath g source destination =
     (case dijkstra g source destination of
        Inl e \<Rightarrow> Some (Inl e)
      | Inr s \<Rightarrow> path g (sp_p s) source destination)"

definition addWeightedEdges :: "graph \<Rightarrow> (NodeId \<times> NodeId \<times> real) list \<Rightarrow> graph" where
  "addWeightedEdges g es = foldl (\<lambda>g' (u, v, w). addEdge g' u v (Some w) None) g es"


lemma initial_distances:
  "foldl (\<lambda>d node. d(node \<mapsto> Infinity)) d0 ns = (\<lambda>x. if x \<in> set ns then Some Infinity else d0 x)"
  by (induction ns arbitrary: d0) (auto simp: fun_eq_iff)

lemma initializeSingleSource_cases:
  "initializeSingleSource g source destination =
     (if source \<notin> set (nodes g) then Inl (Error ''Source node is not in the graph'')
      else if destination \<notin> set (nodes g) then Inl (Error ''Destination node is not in the graph'')
      else Inr ((\<lambda>x. if x \<in> set (nodes g) then Some Infinity else None)(source \<mapsto> Finite 0)))"
  by (simp add: initializeSingleSource_def initial_distances Let_def)





declare dijkstra_loop.simps [simp del]


lemma dijkstra_cases:
  "dijkstra g source destination =
     (if source \<notin> set (nodes g) then Inl (Error ''Source node is not in the graph'')
      else if destination \<notin> set (nodes g) then Inl (Error ''Destination node is not in the graph'')
      else Inr (dijkstra_loop g \<lparr>sp_d = (\<lambda>x. if x \<in> set (nodes g) then Some Infinity else None)(source \<mapsto> Finite 0),
                                 sp_p = Map.empty, sp_q = initializePriorityQueue g\<rparr>))"
  by (simp add: dijkstra_def initializeSingleSource_cases)







section \<open>Shortest paths outside of the empty identifier\<close>

fun follows_edges :: "graph \<Rightarrow> NodeId list \<Rightarrow> bool" where
  "follows_edges g (x # y # xs) = (hasEdge g x y \<and> follows_edges g (y # xs))"
| "follows_edges g _ = True"

fun path_weight :: "graph \<Rightarrow> NodeId list \<Rightarrow> real" where
  "path_weight g (x # y # xs) = getEdgeWeight g x y + path_weight g (y # xs)"
| "path_weight g _ = 0"

definition is_path :: "graph \<Rightarrow> NodeId \<Rightarrow> NodeId list \<Rightarrow> NodeId \<Rightarrow> bool" where
  "is_path g a ns b = (ns \<noteq> [] \<and> hd ns = a \<and> last ns = b \<and> follows_edges g ns)"

definition nonneg_weights :: "graph \<Rightarrow> bool" where
  "nonneg_weights g = list_all (\<lambda>u. list_all (\<lambda>v. 0 \<le> getEdgeWeight g u v) (adjacent g u)) (nodes g)"

lemma nonneg_weightsD: "nonneg_weights g \<Longrightarrow> hasEdge g u v \<Longrightarrow> 0 \<le> getEdgeWeight g u v"
  using hasEdge_nodes [of g u v] by (auto simp: nonneg_weights_def list_all_iff hasEdge_def)

lemma follows_edges_append:
  "follows_edges g (xs @ y # ys) = (follows_edges g (xs @ [y]) \<and> follows_edges g (y # ys))"
  by (induction g xs rule: follows_edges.induct) auto

lemma path_weight_append:
  "path_weight g (xs @ y # ys) = path_weight g (xs @ [y]) + path_weight g (y # ys)"
  by (induction g xs rule: path_weight.induct) auto

lemma follows_edges_snoc:
  "xs \<noteq> [] \<Longrightarrow> follows_edges g (xs @ [y]) = (follows_edges g xs \<and> hasEdge g (last xs) y)"
  by (induction g xs rule: follows_edges.induct) auto

lemma path_weight_snoc:
  "xs \<noteq> [] \<Longrightarrow> path_weight g (xs @ [y]) = path_weight g xs + getEdgeWeight g (last xs) y"
  by (induction g xs rule: path_weight.induct) auto

lemma path_weight_nonneg:
  "nonneg_weights g \<Longrightarrow> follows_edges g ns \<Longrightarrow> 0 \<le> path_weight g ns"
  by (induction g ns rule: path_weight.induct) (auto dest: nonneg_weightsD)

lemma reachable_is_path:
  assumes "(a, b) \<in> (edge_rel g)\<^sup>*"
  shows "\<exists>ns. is_path g a ns b"
  using assms
proof (induction rule: rtrancl_induct)
  case base
  have "is_path g a [a] a"
    by (simp add: is_path_def)
  then show ?case ..
next
  case (step y z)
  then obtain ns where ns: "is_path g a ns y"
    by blast
  with step(2) have "is_path g a (ns @ [z]) z"
    by (auto simp: is_path_def follows_edges_snoc edge_rel_def)
  then show ?case ..
qed

lemma follows_edges_nodes:
  "follows_edges g ns \<Longrightarrow> ns \<noteq> [] \<Longrightarrow> hd ns \<in> set (nodes g) \<Longrightarrow> set ns \<subseteq> set (nodes g)"
proof (induction g ns rule: follows_edges.induct)
  case (1 g x y xs)
  then show ?case
    using hasEdge_nodes [of g x y] by auto
qed auto

text \<open>
  The chain of predecessors from the source to a node, as the table \<^verbatim>\<open>p\<close> records it.
\<close>

inductive pchain :: "(NodeId \<rightharpoonup> NodeId) \<Rightarrow> NodeId \<Rightarrow> NodeId \<Rightarrow> NodeId list \<Rightarrow> bool"
  for p :: "NodeId \<rightharpoonup> NodeId" and s0 :: NodeId where
  base: "p s0 = None \<Longrightarrow> pchain p s0 s0 [s0]"
| step: "p v = Some u \<Longrightarrow> pchain p s0 u ns \<Longrightarrow> pchain p s0 v (ns @ [v])"

lemma pchain_ends: "pchain p s0 v ns \<Longrightarrow> ns \<noteq> [] \<and> hd ns = s0 \<and> last ns = v"
  by (induction rule: pchain.induct) auto

lemma pchain_update:
  "pchain p s0 v ns \<Longrightarrow> x \<notin> set ns \<Longrightarrow> pchain (p(x \<mapsto> y)) s0 v ns"
proof (induction rule: pchain.induct)
  case base
  then show ?case by (simp add: pchain.base)
next
  case (step v u ns)
  then show ?case by (auto intro: pchain.step)
qed

lemma path_loop_pchain:
  "pchain p s0 v ns \<Longrightarrow> [] \<notin> set (butlast ns) \<Longrightarrow>
     path_loop g p v acc w = Some (s0, acc @ rev (tl ns), w + path_weight g ns)"
proof (induction arbitrary: acc w rule: pchain.induct)
  case base
  then show ?case
    by (subst path_loop.simps) simp
next
  case (step v u ns)
  from step(2) have ends: "ns \<noteq> []" "hd ns = s0" "last ns = u"
    using pchain_ends by blast+
  from step(4) have "[] \<notin> set ns"
    by simp
  moreover have "u \<in> set ns"
    using ends by auto
  ultimately have u: "u \<noteq> []" and rest: "[] \<notin> set (butlast ns)"
    by (auto dest: in_set_butlastD)
  have "path_loop g p v acc w = path_loop g p u (acc @ [v]) (w + getEdgeWeight g u v)"
    using step(1) u by (subst path_loop.simps) simp
  also have "\<dots> = Some (s0, (acc @ [v]) @ rev (tl ns), (w + getEdgeWeight g u v) + path_weight g ns)"
    using rest by (rule step(3))
  finally show ?case
    using ends by (simp add: path_weight_snoc)
qed

definition number_le :: "number \<Rightarrow> number \<Rightarrow> bool" where
  "number_le a b = (\<not> number_less b a)"

lemma number_le_refl [simp]: "number_le a a"
  by (cases a) (simp_all add: number_le_def)

lemma number_le_trans: "number_le a b \<Longrightarrow> number_le b c \<Longrightarrow> number_le a c"
  by (cases a; cases b; cases c) (simp_all add: number_le_def)

lemma number_less_irrefl [simp]: "\<not> number_less a a"
  by (cases a) simp_all

lemma number_less_asym: "number_less a b \<Longrightarrow> \<not> number_less b a"
  by (cases a; cases b) simp_all

lemma number_less_le: "number_less a b \<Longrightarrow> number_le a b"
  by (cases a; cases b) (simp_all add: number_le_def)

lemma number_le_Finite [simp]: "number_le (Finite a) (Finite b) = (a \<le> b)"
  by (auto simp: number_le_def)

lemma number_le_Infinity [simp]: "number_le a Infinity"
  by (cases a) (simp_all add: number_le_def)

lemma Infinity_le [simp]: "number_le Infinity a = (a = Infinity)"
  by (cases a) (simp_all add: number_le_def)

definition extractMin_step :: "(NodeId \<rightharpoonup> number) \<Rightarrow> number \<times> NodeId option \<Rightarrow> NodeId \<Rightarrow> number \<times> NodeId option" where
  "extractMin_step d = (\<lambda>(m, minNode) node.
     case d node of
       Some x \<Rightarrow> if number_less x m then (x, Some node) else (m, minNode)
     | None \<Rightarrow> (m, minNode))"

lemma extractMin_step_simp:
  "extractMin_step d (m, n) k =
     (case d k of Some x \<Rightarrow> if number_less x m then (x, Some k) else (m, n) | None \<Rightarrow> (m, n))"
  by (simp add: extractMin_step_def)

lemma scan_result:
  "foldl (extractMin_step d) (m0, n0) ks = (m, n) \<Longrightarrow> (\<forall>k. n0 = Some k \<longrightarrow> d k = Some m0) \<Longrightarrow>
     n = Some k \<Longrightarrow> d k = Some m \<and> (n0 = Some k \<or> k \<in> set ks)"
proof (induction ks arbitrary: m0 n0)
  case Nil
  then show ?case by simp
next
  case (Cons a ks)
  obtain m1 n1 where 1: "extractMin_step d (m0, n0) a = (m1, n1)"
    by (cases "extractMin_step d (m0, n0) a")
  then have 2: "\<forall>k. n1 = Some k \<longrightarrow> d k = Some m1" "n1 = n0 \<or> n1 = Some a"
    using Cons(3) by (auto simp: extractMin_step_simp split: option.splits if_splits)
  from Cons(2) 1 have "foldl (extractMin_step d) (m1, n1) ks = (m, n)"
    by simp
  from Cons(1) [OF this 2(1) Cons(4)] 2(2) show ?case
    by auto
qed

lemma scan_least:
  "foldl (extractMin_step d) (m0, n0) ks = (m, n) \<Longrightarrow>
     number_le m m0 \<and> (\<forall>k \<in> set ks. \<forall>x. d k = Some x \<longrightarrow> number_le m x)"
proof (induction ks arbitrary: m0 n0)
  case Nil
  then show ?case by simp
next
  case (Cons a ks)
  obtain m1 n1 where 1: "extractMin_step d (m0, n0) a = (m1, n1)"
    by (cases "extractMin_step d (m0, n0) a")
  then have 2: "number_le m1 m0" "\<forall>x. d a = Some x \<longrightarrow> number_le m1 x"
    by (auto simp: extractMin_step_simp number_le_def dest: number_less_asym split: option.splits if_splits)
  from Cons(2) 1 have "foldl (extractMin_step d) (m1, n1) ks = (m, n)"
    by simp
  from Cons(1) [OF this] have 3: "number_le m m1" "\<forall>k \<in> set ks. \<forall>x. d k = Some x \<longrightarrow> number_le m x"
    by blast+
  from 2 3 show ?case
    by (auto intro: number_le_trans)
qed

lemma scan_none:
  "foldl (extractMin_step d) (m0, n0) ks = (m, None) \<Longrightarrow> n0 = None \<and> m = m0"
proof (induction ks arbitrary: m0 n0)
  case Nil
  then show ?case by simp
next
  case (Cons a ks)
  obtain m1 n1 where 1: "extractMin_step d (m0, n0) a = (m1, n1)"
    by (cases "extractMin_step d (m0, n0) a")
  from Cons(2) 1 have "foldl (extractMin_step d) (m1, n1) ks = (m, None)"
    by simp
  from Cons(1) [OF this] 1 show ?case
    by (auto simp: extractMin_step_simp split: option.splits if_splits)
qed

lemma extractMin_unfold:
  "extractMin d q =
     (case foldl (extractMin_step d) (Infinity, None) (Object_keys q) of
        (m, None) \<Rightarrow> (None, [])
      | (m, Some n) \<Rightarrow> (Some n, AList.delete n q))"
  by (simp add: extractMin_def extractMin_step_def split: prod.splits)

lemma extractMin_Some_least:
  assumes "extractMin d q = (Some u, q')"
  shows "\<exists>x. d u = Some (Finite x) \<and> (\<forall>k \<in> fst ` set q. \<forall>y. d k = Some y \<longrightarrow> number_le (Finite x) y)"
proof -
  obtain m n where f: "foldl (extractMin_step d) (Infinity, None) (Object_keys q) = (m, n)"
    by (cases "foldl (extractMin_step d) (Infinity, None) (Object_keys q)")
  with assms have n: "n = Some u"
    by (auto simp: extractMin_unfold split: option.splits)
  from scan_result [OF f _ n] have u: "d u = Some m" "u \<in> fst ` set q"
    by auto
  from scan_least [OF f] have least: "\<forall>k \<in> fst ` set q. \<forall>y. d k = Some y \<longrightarrow> number_le m y"
    by simp
  have "m \<noteq> Infinity"
  proof
    assume inf: "m = Infinity"
    with u(1) have "d u = Some Infinity"
      by simp
    moreover have "foldl (extractMin_step d) (m0, n0) ks = (m', Some k) \<Longrightarrow> n0 = None \<Longrightarrow> m' \<noteq> Infinity"
      for ks m0 n0 m' k
    proof (induction ks arbitrary: m0 n0)
      case Nil
      then show ?case by simp
    next
      case (Cons a ks)
      obtain m1 n1 where 1: "extractMin_step d (m0, n0) a = (m1, n1)"
        by (cases "extractMin_step d (m0, n0) a")
      with Cons(2) have 2: "foldl (extractMin_step d) (m1, n1) ks = (m', Some k)"
        by simp
      show ?case
      proof (cases n1)
        case None
        with Cons(1) [OF 2] show ?thesis by simp
      next
        case (Some b)
        with 1 Cons(3) obtain x where "d a = Some x" "number_less x m0" "m1 = x"
          by (auto simp: extractMin_step_simp split: option.splits if_splits)
        then have "m1 \<noteq> Infinity"
          by (cases x) auto
        moreover have "number_le m' m1"
          using scan_least [OF 2] by simp
        ultimately show ?thesis
          by (cases m1) auto
      qed
    qed
    from this [OF f [unfolded n] refl] inf show False
      by simp
  qed
  then obtain x where "m = Finite x"
    by (cases m) auto
  with u least show ?thesis
    by auto
qed

lemma extractMin_None_all_infinite:
  assumes "extractMin d q = (None, q')"
  shows "q' = [] \<and> (\<forall>k \<in> fst ` set q. d k = None \<or> d k = Some Infinity)"
proof -
  obtain m n where f: "foldl (extractMin_step d) (Infinity, None) (Object_keys q) = (m, n)"
    by (cases "foldl (extractMin_step d) (Infinity, None) (Object_keys q)")
  with assms have n: "n = None" and q': "q' = []"
    by (auto simp: extractMin_unfold split: option.splits)
  from scan_none [OF f [unfolded n]] have m: "m = Infinity"
    by simp
  from scan_least [OF f] m have "\<forall>k \<in> fst ` set q. \<forall>y. d k = Some y \<longrightarrow> y = Infinity"
    by simp
  with q' show ?thesis
    by (metis not_None_eq)
qed

definition relaxed :: "graph \<Rightarrow> (NodeId \<rightharpoonup> number) \<Rightarrow> NodeId \<Rightarrow> NodeId \<Rightarrow> bool" where
  "relaxed g d u v =
     (\<forall>x. d u = Some (Finite x) \<longrightarrow> (\<exists>y. d v = Some (Finite y) \<and> y \<le> x + getEdgeWeight g u v))"

text \<open>
  The invariant of the main loop for a set \<open>S\<close> of settled nodes: the source has distance 0
  and no predecessor, every finite entry of \<^verbatim>\<open>d\<close> is the weight of the predecessor chain
  of its node, which runs through settled nodes, and the entry of a settled node is a
  lower bound for every path from the source to it.
\<close>

definition sp_core :: "graph \<Rightarrow> NodeId \<Rightarrow> NodeId set \<Rightarrow> dijkstra_state \<Rightarrow> bool" where
  "sp_core g s0 S st =
     (S \<subseteq> set (nodes g) \<and> s0 \<in> set (nodes g)
      \<and> sp_d st s0 = Some (Finite 0) \<and> sp_p st s0 = None
      \<and> (\<forall>v \<in> set (nodes g). sp_d st v \<noteq> None)
      \<and> (\<forall>v x. sp_d st v = Some (Finite x) \<longrightarrow>
            (\<exists>ns. pchain (sp_p st) s0 v ns \<and> follows_edges g ns \<and> path_weight g ns = x
                   \<and> set (butlast ns) \<subseteq> S))
      \<and> (\<forall>u \<in> S. \<exists>x. sp_d st u = Some (Finite x)
                      \<and> (\<forall>ns. is_path g s0 ns u \<longrightarrow> x \<le> path_weight g ns)))"

lemma set_butlast_last: "ns \<noteq> [] \<Longrightarrow> set ns = insert (last ns) (set (butlast ns))"
  by (induction ns) auto

lemma sp_core_chain:
  assumes "sp_core g s0 S st" "sp_d st v = Some (Finite x)"
  obtains ns where "pchain (sp_p st) s0 v ns" "follows_edges g ns" "path_weight g ns = x"
    "set (butlast ns) \<subseteq> S" "is_path g s0 ns v"
proof -
  from assms obtain ns where ns: "pchain (sp_p st) s0 v ns" "follows_edges g ns" "path_weight g ns = x"
    "set (butlast ns) \<subseteq> S"
    unfolding sp_core_def by blast
  moreover from ns(1,2) have "is_path g s0 ns v"
    using pchain_ends [of "sp_p st" s0 v ns] by (simp add: is_path_def)
  ultimately show ?thesis
    by (rule that)
qed

lemma sp_core_settled:
  assumes "sp_core g s0 S st" "u \<in> S"
  shows "\<exists>x. sp_d st u = Some (Finite x) \<and> (\<forall>ns. is_path g s0 ns u \<longrightarrow> x \<le> path_weight g ns)"
  using assms unfolding sp_core_def by blast

lemma relax_unchanged:
  assumes "sp_d st v = Some dv" "sp_d st u = Some du"
    "\<not> number_less (number_add du (getEdgeWeight g u v)) dv"
  shows "relax g u st v = st"
  using assms by (simp add: relax_def Let_def)

lemma relax_changed:
  assumes "sp_d st v = Some dv" "sp_d st u = Some du"
    "number_less (number_add du (getEdgeWeight g u v)) dv"
  shows "relax g u st v = st\<lparr>sp_d := (sp_d st)(v \<mapsto> number_add du (getEdgeWeight g u v)),
                              sp_p := (sp_p st)(v \<mapsto> u)\<rparr>"
  using assms by (simp add: relax_def Let_def)

lemma relax_core:
  assumes nn: "nonneg_weights g" and core: "sp_core g s0 S st" and u: "u \<in> S"
    and v: "v \<in> set (adjacent g u)"
  shows "sp_core g s0 S (relax g u st v) \<and> relaxed g (sp_d (relax g u st v)) u v
         \<and> (\<forall>a \<in> S. \<forall>b. relaxed g (sp_d st) a b \<longrightarrow> relaxed g (sp_d (relax g u st v)) a b)"
proof -
  let ?W = "getEdgeWeight g u v"
  have e: "hasEdge g u v"
    using v by (simp add: hasEdge_def)
  then have W: "0 \<le> ?W"
    using nn by (rule nonneg_weightsD [rotated])
  from sp_core_settled [OF core u] obtain xu where xu: "sp_d st u = Some (Finite xu)"
    by blast
  from core xu obtain nu where nu: "pchain (sp_p st) s0 u nu" "follows_edges g nu" "path_weight g nu = xu"
    "set (butlast nu) \<subseteq> S" "is_path g s0 nu u"
    by (rule sp_core_chain)
  have ends: "nu \<noteq> []" "hd nu = s0" "last nu = u"
    using nu(5) by (simp_all add: is_path_def)
  have xu0: "0 \<le> xu"
    using path_weight_nonneg [OF nn nu(2)] nu(3) by simp
  have nuS: "set nu \<subseteq> S"
    using set_butlast_last [OF ends(1)] nu(4) ends(3) u by auto
  have pv: "is_path g s0 (nu @ [v]) v" "path_weight g (nu @ [v]) = xu + ?W"
    using ends nu(2,3) e by (simp_all add: is_path_def follows_edges_snoc path_weight_snoc)
  have vn: "v \<in> set (nodes g)"
    using e hasEdge_nodes by blast
  with core obtain dv where dv: "sp_d st v = Some dv"
    unfolding sp_core_def by blast
  show ?thesis
  proof (cases "number_less (Finite (xu + ?W)) dv")
    case False
    then have same: "relax g u st v = st"
      using relax_unchanged [OF dv xu] by simp
    from False obtain y where "dv = Finite y" "y \<le> xu + ?W"
      by (cases dv) auto
    with dv xu have "relaxed g (sp_d st) u v"
      by (simp add: relaxed_def)
    with core same show ?thesis
      by simp
  next
    case True
    let ?st = "st\<lparr>sp_d := (sp_d st)(v \<mapsto> Finite (xu + ?W)), sp_p := (sp_p st)(v \<mapsto> u)\<rparr>"
    have upd: "relax g u st v = ?st"
      using relax_changed [OF dv xu] True by simp
    have vS: "v \<notin> S"
    proof
      assume "v \<in> S"
      from sp_core_settled [OF core this] obtain xv where xv: "sp_d st v = Some (Finite xv)"
        "\<forall>ns. is_path g s0 ns v \<longrightarrow> xv \<le> path_weight g ns"
        by blast
      from xv(2) pv have "xv \<le> xu + ?W"
        by auto
      with True dv xv(1) show False
        by auto
    qed
    have vs0: "v \<noteq> s0"
    proof
      assume "v = s0"
      with core dv have "dv = Finite 0"
        by (simp add: sp_core_def)
      with True xu0 W show False
        by simp
    qed
    have vnu: "v \<notin> set nu"
      using nuS vS by blast
    have chains: "\<exists>ns. pchain (sp_p ?st) s0 w ns \<and> follows_edges g ns \<and> path_weight g ns = x
        \<and> set (butlast ns) \<subseteq> S" if w: "sp_d ?st w = Some (Finite x)" for w x
    proof (cases "w = v")
      case True
      with w have x: "x = xu + ?W"
        by simp
      have "pchain (sp_p ?st) s0 u nu"
        using nu(1) vnu by (simp add: pchain_update)
      then have "pchain (sp_p ?st) s0 v (nu @ [v])"
        by (intro pchain.step [of _ _ u]) simp_all
      moreover have "follows_edges g (nu @ [v])" "set (butlast (nu @ [v])) \<subseteq> S"
        using pv(1) nuS by (simp_all add: is_path_def)
      ultimately show ?thesis
        using True x pv(2) by blast
    next
      case False
      with w have "sp_d st w = Some (Finite x)"
        by simp
      with core obtain ns where ns: "pchain (sp_p st) s0 w ns" "follows_edges g ns" "path_weight g ns = x"
        "set (butlast ns) \<subseteq> S" "is_path g s0 ns w"
        by (rule sp_core_chain)
      have "ns \<noteq> []" "last ns = w"
        using ns(5) by (simp_all add: is_path_def)
      with set_butlast_last [of ns] ns(4) vS False have "v \<notin> set ns"
        by auto
      with ns(1) have "pchain (sp_p ?st) s0 w ns"
        by (simp add: pchain_update)
      with ns(2,3,4) show ?thesis
        by blast
    qed
    have settled: "\<exists>x. sp_d ?st a = Some (Finite x) \<and> (\<forall>ns. is_path g s0 ns a \<longrightarrow> x \<le> path_weight g ns)"
      if "a \<in> S" for a
    proof -
      from sp_core_settled [OF core that] obtain x where "sp_d st a = Some (Finite x)"
        "\<forall>ns. is_path g s0 ns a \<longrightarrow> x \<le> path_weight g ns"
        by blast
      moreover from that vS have "a \<noteq> v"
        by blast
      ultimately show ?thesis
        by auto
    qed
    have core': "sp_core g s0 S ?st"
      unfolding sp_core_def
    proof (intro conjI)
      show "S \<subseteq> set (nodes g)" "s0 \<in> set (nodes g)"
        using core by (simp_all add: sp_core_def)
      show "sp_d ?st s0 = Some (Finite 0)" "sp_p ?st s0 = None"
        using core vs0 by (simp_all add: sp_core_def)
      show "\<forall>w \<in> set (nodes g). sp_d ?st w \<noteq> None"
        using core by (simp add: sp_core_def)
      show "\<forall>w x. sp_d ?st w = Some (Finite x) \<longrightarrow>
          (\<exists>ns. pchain (sp_p ?st) s0 w ns \<and> follows_edges g ns \<and> path_weight g ns = x \<and> set (butlast ns) \<subseteq> S)"
        using chains by blast
      show "\<forall>a \<in> S. \<exists>x. sp_d ?st a = Some (Finite x) \<and> (\<forall>ns. is_path g s0 ns a \<longrightarrow> x \<le> path_weight g ns)"
        using settled by blast
    qed
    have "relaxed g (sp_d ?st) u v"
      using xu u vS by (auto simp: relaxed_def)
    moreover have "relaxed g (sp_d ?st) a b" if a: "a \<in> S" and r: "relaxed g (sp_d st) a b" for a b
    proof -
      from a vS have av: "a \<noteq> v"
        by blast
      show ?thesis
      proof (cases "b = v")
        case False
        with r av show ?thesis
          by (simp add: relaxed_def)
      next
        case bv: True
        show ?thesis
          unfolding relaxed_def
        proof (intro allI impI)
          fix x
          assume "sp_d ?st a = Some (Finite x)"
          with av have "sp_d st a = Some (Finite x)"
            by simp
          with r obtain y where y: "sp_d st b = Some (Finite y)" "y \<le> x + getEdgeWeight g a b"
            unfolding relaxed_def by blast
          with bv dv True have "xu + ?W < y"
            by simp
          with y(2) bv show "\<exists>y. sp_d ?st b = Some (Finite y) \<and> y \<le> x + getEdgeWeight g a b"
            by simp
        qed
      qed
    qed
    ultimately show ?thesis
      using core' upd by simp
  qed
qed

lemma foldl_relax_core:
  assumes nn: "nonneg_weights g" and u: "u \<in> S"
  shows "sp_core g s0 S st \<Longrightarrow> set vs \<subseteq> set (adjacent g u) \<Longrightarrow>
     sp_core g s0 S (foldl (relax g u) st vs)
     \<and> (\<forall>v \<in> set vs. relaxed g (sp_d (foldl (relax g u) st vs)) u v)
     \<and> (\<forall>a \<in> S. \<forall>b. relaxed g (sp_d st) a b \<longrightarrow> relaxed g (sp_d (foldl (relax g u) st vs)) a b)"
proof (induction vs arbitrary: st)
  case Nil
  then show ?case by simp
next
  case (Cons v vs)
  from Cons(3) have v: "v \<in> set (adjacent g u)" and vs: "set vs \<subseteq> set (adjacent g u)"
    by simp_all
  note r = relax_core [OF nn Cons(2) u v]
  from r have core1: "sp_core g s0 S (relax g u st v)"
    and rv: "relaxed g (sp_d (relax g u st v)) u v"
    and keep1: "\<forall>a \<in> S. \<forall>b. relaxed g (sp_d st) a b \<longrightarrow> relaxed g (sp_d (relax g u st v)) a b"
    by blast+
  note ih = Cons(1) [OF core1 vs]
  from ih have core2: "sp_core g s0 S (foldl (relax g u) (relax g u st v) vs)"
    and rvs: "\<forall>v' \<in> set vs. relaxed g (sp_d (foldl (relax g u) (relax g u st v) vs)) u v'"
    and keep2: "\<forall>a \<in> S. \<forall>b. relaxed g (sp_d (relax g u st v)) a b \<longrightarrow>
                  relaxed g (sp_d (foldl (relax g u) (relax g u st v) vs)) a b"
    by blast+
  from keep2 u rv have "relaxed g (sp_d (foldl (relax g u) (relax g u st v) vs)) u v"
    by blast
  with core2 rvs keep1 keep2 show ?case
    by simp
qed

lemma path_first_exit:
  "follows_edges g ns \<Longrightarrow> ns \<noteq> [] \<Longrightarrow> hd ns \<in> S \<Longrightarrow> last ns \<notin> S \<Longrightarrow>
     \<exists>pre a b post. ns = pre @ a # b # post \<and> a \<in> S \<and> b \<notin> S"
proof (induction g ns rule: follows_edges.induct)
  case (1 g x y xs)
  show ?case
  proof (cases "y \<in> S")
    case False
    with 1(4) have "x # y # xs = [] @ x # y # xs \<and> x \<in> S \<and> y \<notin> S"
      by simp
    then show ?thesis by blast
  next
    case True
    with 1 obtain pre a b post where "y # xs = pre @ a # b # post" "a \<in> S" "b \<notin> S"
      by auto
    then have "x # y # xs = (x # pre) @ a # b # post \<and> a \<in> S \<and> b \<notin> S"
      by simp
    then show ?thesis by blast
  qed
qed auto

lemma extract_core:
  assumes nn: "nonneg_weights g" and core: "sp_core g s0 S st"
    and rel: "\<forall>a \<in> S. \<forall>b \<in> set (adjacent g a). relaxed g (sp_d st) a b"
    and q: "fst ` set (sp_q st) = set (nodes g) - S"
    and ex: "extractMin (sp_d st) (sp_q st) = (Some u, q')"
  shows "sp_core g s0 (insert u S) (st\<lparr>sp_q := q'\<rparr>) \<and> fst ` set q' = set (nodes g) - insert u S"
proof -
  from extractMin_Some [OF ex] have uq: "u \<in> fst ` set (sp_q st)" and q': "q' = AList.delete u (sp_q st)"
    by simp_all
  from uq q have un: "u \<in> set (nodes g)" and uS: "u \<notin> S"
    by auto
  from extractMin_Some_least [OF ex] obtain xu where xu: "sp_d st u = Some (Finite xu)"
    and least: "\<forall>k \<in> fst ` set (sp_q st). \<forall>y. sp_d st k = Some y \<longrightarrow> number_le (Finite xu) y"
    by blast
  have s0n: "s0 \<in> set (nodes g)" and d0: "sp_d st s0 = Some (Finite 0)"
    using core by (simp_all add: sp_core_def)
  have opt: "xu \<le> path_weight g ns" if p: "is_path g s0 ns u" for ns
  proof (cases "s0 \<in> S")
    case False
    with s0n q have "s0 \<in> fst ` set (sp_q st)"
      by simp
    with least d0 have "xu \<le> 0"
      by fastforce
    moreover have "0 \<le> path_weight g ns"
      using p path_weight_nonneg [OF nn] by (simp add: is_path_def)
    ultimately show ?thesis by simp
  next
    case True
    from p have fe: "follows_edges g ns" "ns \<noteq> []" "hd ns = s0" "last ns = u"
      by (simp_all add: is_path_def)
    with True uS path_first_exit [of g ns S]
    obtain pre a b post where dec: "ns = pre @ a # b # post" and a: "a \<in> S" and b: "b \<notin> S"
      by auto
    have f1: "follows_edges g (pre @ [a])" and f2: "follows_edges g (a # b # post)"
      using fe(1) follows_edges_append [of g pre a "b # post"] by (simp_all add: dec)
    from f2 have e: "hasEdge g a b" and f3: "follows_edges g (b # post)"
      by simp_all
    have pa: "is_path g s0 (pre @ [a]) a"
      using f1 fe(3) by (cases pre) (simp_all add: is_path_def dec)
    from sp_core_settled [OF core a] obtain xa where xa: "sp_d st a = Some (Finite xa)"
      "\<forall>ms. is_path g s0 ms a \<longrightarrow> xa \<le> path_weight g ms"
      by blast
    from xa(2) pa have 1: "xa \<le> path_weight g (pre @ [a])"
      by blast
    from rel a e have "relaxed g (sp_d st) a b"
      by (simp add: hasEdge_def)
    with xa(1) obtain y where y: "sp_d st b = Some (Finite y)" "y \<le> xa + getEdgeWeight g a b"
      unfolding relaxed_def by blast
    have "b \<in> set (nodes g)"
      using e hasEdge_nodes by blast
    with b q have "b \<in> fst ` set (sp_q st)"
      by simp
    with least y(1) have 2: "xu \<le> y"
      by fastforce
    have 3: "0 \<le> path_weight g (b # post)"
      using path_weight_nonneg [OF nn f3] .
    have "path_weight g ns = path_weight g (pre @ [a]) + (getEdgeWeight g a b + path_weight g (b # post))"
      using path_weight_append [of g pre a "b # post"] by (simp add: dec)
    with 1 2 3 y(2) show ?thesis
      by simp
  qed
  have keys: "fst ` set q' = set (nodes g) - insert u S"
  proof -
    have "fst ` set q' = set (map fst (AList.delete u (sp_q st)))"
      by (simp add: q')
    also have "\<dots> = fst ` set (sp_q st) - {u}"
      by (simp add: delete_keys)
    finally show ?thesis
      using q by auto
  qed
  have "sp_core g s0 (insert u S) (st\<lparr>sp_q := q'\<rparr>)"
    unfolding sp_core_def
  proof (intro conjI)
    show "insert u S \<subseteq> set (nodes g)" "s0 \<in> set (nodes g)"
      using core un by (simp_all add: sp_core_def)
    show "sp_d (st\<lparr>sp_q := q'\<rparr>) s0 = Some (Finite 0)" "sp_p (st\<lparr>sp_q := q'\<rparr>) s0 = None"
      using core by (simp_all add: sp_core_def)
    show "\<forall>v \<in> set (nodes g). sp_d (st\<lparr>sp_q := q'\<rparr>) v \<noteq> None"
      using core by (simp add: sp_core_def)
    show "\<forall>v x. sp_d (st\<lparr>sp_q := q'\<rparr>) v = Some (Finite x) \<longrightarrow>
        (\<exists>ns. pchain (sp_p (st\<lparr>sp_q := q'\<rparr>)) s0 v ns \<and> follows_edges g ns \<and> path_weight g ns = x
               \<and> set (butlast ns) \<subseteq> insert u S)"
    proof (intro allI impI)
      fix v x
      assume "sp_d (st\<lparr>sp_q := q'\<rparr>) v = Some (Finite x)"
      then have "sp_d st v = Some (Finite x)"
        by simp
      with core obtain ns where "pchain (sp_p st) s0 v ns" "follows_edges g ns" "path_weight g ns = x"
        "set (butlast ns) \<subseteq> S" "is_path g s0 ns v"
        by (rule sp_core_chain)
      then show "\<exists>ns. pchain (sp_p (st\<lparr>sp_q := q'\<rparr>)) s0 v ns \<and> follows_edges g ns \<and> path_weight g ns = x
               \<and> set (butlast ns) \<subseteq> insert u S"
        by auto
    qed
    show "\<forall>a \<in> insert u S. \<exists>x. sp_d (st\<lparr>sp_q := q'\<rparr>) a = Some (Finite x)
        \<and> (\<forall>ns. is_path g s0 ns a \<longrightarrow> x \<le> path_weight g ns)"
    proof
      fix a
      assume "a \<in> insert u S"
      then show "\<exists>x. sp_d (st\<lparr>sp_q := q'\<rparr>) a = Some (Finite x)
        \<and> (\<forall>ns. is_path g s0 ns a \<longrightarrow> x \<le> path_weight g ns)"
      proof
        assume "a = u"
        with xu opt show ?thesis by auto
      next
        assume "a \<in> S"
        from sp_core_settled [OF core this] show ?thesis by simp
      qed
    qed
  qed
  with keys show ?thesis
    by simp
qed

lemma priorityQueueEmpty_iff: "priorityQueueEmpty q = (fst ` set q = {})"
proof -
  have "priorityQueueEmpty q = (Object_keys q = [])"
    by (simp add: priorityQueueEmpty_def)
  also have "\<dots> = (set (Object_keys q) = {})"
    by (simp only: set_empty)
  finally show ?thesis
    by simp
qed

lemma sp_core_sp_q [simp]: "sp_core g s0 S (st\<lparr>sp_q := q'\<rparr>) = sp_core g s0 S st"
  by (simp add: sp_core_def)

lemma dijkstra_loop_core:
  "nonneg_weights g \<Longrightarrow> sp_core g s0 S st \<Longrightarrow>
   (\<forall>a \<in> S. \<forall>b \<in> set (adjacent g a). relaxed g (sp_d st) a b) \<Longrightarrow>
   fst ` set (sp_q st) = set (nodes g) - S \<Longrightarrow>
   \<exists>S'. sp_core g s0 S' (dijkstra_loop g st)
        \<and> (\<forall>a \<in> S'. \<forall>b \<in> set (adjacent g a). relaxed g (sp_d (dijkstra_loop g st)) a b)
        \<and> (\<forall>v \<in> set (nodes g) - S'. sp_d (dijkstra_loop g st) v = Some Infinity)"
proof (induction g st arbitrary: S rule: dijkstra_loop.induct)
  case (1 g st)
  note nn = 1(2) and core = 1(3) and rel = 1(4) and q = 1(5)
  show ?case
  proof (cases "priorityQueueEmpty (sp_q st)")
    case True
    then have "dijkstra_loop g st = st"
      by (subst dijkstra_loop.simps) simp
    moreover from True q have "set (nodes g) - S = {}"
      by (simp add: priorityQueueEmpty_iff)
    ultimately show ?thesis
      using core rel by auto
  next
    case False
    obtain m q' where ex: "extractMin (sp_d st) (sp_q st) = (m, q')"
      by (cases "extractMin (sp_d st) (sp_q st)")
    show ?thesis
    proof (cases m)
      case None
      with False ex have res: "dijkstra_loop g st = st\<lparr>sp_q := q'\<rparr>"
        by (subst dijkstra_loop.simps) simp
      from extractMin_None_all_infinite [OF ex [unfolded None]]
      have inf: "\<forall>k \<in> fst ` set (sp_q st). sp_d st k = None \<or> sp_d st k = Some Infinity"
        by simp
      have "\<forall>v \<in> set (nodes g) - S. sp_d st v = Some Infinity"
      proof
        fix v
        assume v: "v \<in> set (nodes g) - S"
        with core have "sp_d st v \<noteq> None"
          by (simp add: sp_core_def)
        moreover from v q have "v \<in> fst ` set (sp_q st)"
          by simp
        with inf have "sp_d st v = None \<or> sp_d st v = Some Infinity"
          by (rule bspec)
        ultimately show "sp_d st v = Some Infinity"
          by auto
      qed
      with core rel res show ?thesis
        by auto
    next
      case (Some u)
      let ?st1 = "st\<lparr>sp_q := q'\<rparr>"
      let ?st2 = "foldl (relax g u) ?st1 (adjacent g u)"
      from False ex Some have res: "dijkstra_loop g st = dijkstra_loop g ?st2"
        by (subst dijkstra_loop.simps) simp
      from extract_core [OF nn core rel q ex [unfolded Some]]
      have core1: "sp_core g s0 (insert u S) ?st1" and q1: "fst ` set q' = set (nodes g) - insert u S"
        by simp_all
      from foldl_relax_core [OF nn _ core1, of u "adjacent g u"]
      have core2: "sp_core g s0 (insert u S) ?st2"
        and ru: "\<forall>v \<in> set (adjacent g u). relaxed g (sp_d ?st2) u v"
        and keep: "\<forall>a \<in> insert u S. \<forall>b. relaxed g (sp_d ?st1) a b \<longrightarrow> relaxed g (sp_d ?st2) a b"
        by simp_all
      have rel2: "\<forall>a \<in> insert u S. \<forall>b \<in> set (adjacent g a). relaxed g (sp_d ?st2) a b"
      proof (intro ballI)
        fix a b
        assume a: "a \<in> insert u S" and b: "b \<in> set (adjacent g a)"
        show "relaxed g (sp_d ?st2) a b"
        proof (cases "a = u")
          case True
          with ru b show ?thesis by simp
        next
          case False
          with a have "a \<in> S" by simp
          with rel b have "relaxed g (sp_d ?st1) a b" by simp
          with keep a show ?thesis by blast
        qed
      qed
      have q2: "fst ` set (sp_q ?st2) = set (nodes g) - insert u S"
        using q1 by simp
      from 1(1) [OF False ex [symmetric] Some nn core2 rel2 q2] res show ?thesis
        by simp
    qed
  qed
qed

lemma keys_initializePriorityQueue: "fst ` set (initializePriorityQueue g) = set (nodes g)"
  by (simp add: initializePriorityQueue_def keys_foldl_update)

text \<open>
  Outside of the slip at the empty identifier, \<^verbatim>\<open>shortestPath\<close> is Dijkstra's algorithm: for
  nonnegative weights, endpoints in \<^verbatim>\<open>nodes()\<close>, a reachable destination and no empty
  string among the nodes, it returns a path from source to destination along edges of
  the graph, tagged with its weight, and no path between the two has a smaller weight.
\<close>

lemma shortestPath_minimal:
  assumes nn: "nonneg_weights g" and ne: "[] \<notin> set (nodes g)"
    and s: "source \<in> set (nodes g)" and t: "destination \<in> set (nodes g)"
    and r: "(source, destination) \<in> (edge_rel g)\<^sup>*"
  shows "\<exists>ns w. shortestPath g source destination = Some (Inr (ns, w))
          \<and> is_path g source ns destination \<and> w = path_weight g ns
          \<and> (\<forall>ms. is_path g source ms destination \<longrightarrow> w \<le> path_weight g ms)"
proof -
  let ?dinit = "(\<lambda>x. if x \<in> set (nodes g) then Some Infinity else None)(source \<mapsto> Finite 0)"
  let ?init = "\<lparr>sp_d = ?dinit, sp_p = Map.empty, sp_q = initializePriorityQueue g\<rparr>"
  let ?st = "dijkstra_loop g ?init"
  have dj: "dijkstra g source destination = Inr ?st"
    using s t by (simp add: dijkstra_cases)
  have "pchain Map.empty source source [source]"
    by (rule pchain.base) simp
  then have core0: "sp_core g source {} ?init"
    using s by (auto simp: sp_core_def)
  from dijkstra_loop_core [OF nn core0] obtain S where core: "sp_core g source S ?st"
    and rel: "\<forall>a \<in> S. \<forall>b \<in> set (adjacent g a). relaxed g (sp_d ?st) a b"
    and inf: "\<forall>v \<in> set (nodes g) - S. sp_d ?st v = Some Infinity"
    by (auto simp: keys_initializePriorityQueue)
  from r obtain ms0 where ms0: "is_path g source ms0 destination"
    using reachable_is_path by blast
  have d0: "sp_d ?st source = Some (Finite 0)"
    using core by (simp add: sp_core_def)
  have sS: "source \<in> S"
    using inf d0 s by (cases "source \<in> S") auto
  have tS: "destination \<in> S"
  proof (rule ccontr)
    assume nt: "destination \<notin> S"
    from ms0 have fe: "follows_edges g ms0" "ms0 \<noteq> []" "hd ms0 = source" "last ms0 = destination"
      by (simp_all add: is_path_def)
    with sS nt path_first_exit [of g ms0 S]
    obtain pre a b post where dec: "ms0 = pre @ a # b # post" and a: "a \<in> S" and b: "b \<notin> S"
      by auto
    have "follows_edges g (a # b # post)"
      using fe(1) follows_edges_append [of g pre a "b # post"] by (simp add: dec)
    then have e: "hasEdge g a b"
      by simp
    from sp_core_settled [OF core a] obtain xa where "sp_d ?st a = Some (Finite xa)"
      by blast
    moreover from rel a e have "relaxed g (sp_d ?st) a b"
      by (simp add: hasEdge_def)
    ultimately obtain y where "sp_d ?st b = Some (Finite y)"
      unfolding relaxed_def by blast
    moreover have "b \<in> set (nodes g)"
      using e hasEdge_nodes by blast
    ultimately show False
      using inf b by auto
  qed
  from sp_core_settled [OF core tS] obtain x where x: "sp_d ?st destination = Some (Finite x)"
    and opt: "\<forall>ms. is_path g source ms destination \<longrightarrow> x \<le> path_weight g ms"
    by blast
  from core x obtain ns where ns: "pchain (sp_p ?st) source destination ns" "follows_edges g ns"
    "path_weight g ns = x" "set (butlast ns) \<subseteq> S" "is_path g source ns destination"
    by (rule sp_core_chain)
  have ends: "ns \<noteq> []" "hd ns = source"
    using ns(5) by (simp_all add: is_path_def)
  have "set ns \<subseteq> set (nodes g)"
    using follows_edges_nodes [OF ns(2) ends(1)] ends(2) s by simp
  with ne have "[] \<notin> set (butlast ns)"
    by (auto dest: in_set_butlastD)
  from path_loop_pchain [OF ns(1) this, of g "[]" 0]
  have "path_loop g (sp_p ?st) destination [] 0 = Some (source, rev (tl ns), path_weight g ns)"
    by simp
  moreover have "source # tl ns = ns"
    using ends by (cases ns) simp_all
  ultimately have "path g (sp_p ?st) source destination = Some (Inr (ns, x))"
    using ns(3) by (simp add: path_def)
  then have "shortestPath g source destination = Some (Inr (ns, x))"
    by (simp add: shortestPath_def dj)
  with ns(3,5) opt show ?thesis
    by blast
qed

definition graph_triangle :: graph where
  "graph_triangle = addWeightedEdges emptyGraph [(''a'', ''b'', 1), (''b'', ''c'', 1), (''a'', ''c'', 5)]"

lemma graph_triangle_reachable: "(''a'', ''c'') \<in> (edge_rel graph_triangle)\<^sup>*"
proof -
  have "hasEdge graph_triangle ''a'' ''c''"
    by code_simp
  then have "(''a'', ''c'') \<in> edge_rel graph_triangle"
    by (simp add: edge_rel_def)
  then show ?thesis
    by (rule r_into_rtrancl)
qed

lemma shortestPath_minimal_example:
  "nonneg_weights graph_triangle \<and> [] \<notin> set (nodes graph_triangle)
   \<and> shortestPath graph_triangle ''a'' ''c'' = Some (Inr ([''a'', ''b'', ''c''], 2))
   \<and> (\<exists>ns w. shortestPath graph_triangle ''a'' ''c'' = Some (Inr (ns, w))
          \<and> is_path graph_triangle ''a'' ns ''c'' \<and> w = path_weight graph_triangle ns
          \<and> (\<forall>ms. is_path graph_triangle ''a'' ms ''c'' \<longrightarrow> w \<le> path_weight graph_triangle ms))"
proof -
  have 1: "nonneg_weights graph_triangle" "[] \<notin> set (nodes graph_triangle)"
    "''a'' \<in> set (nodes graph_triangle)" "''c'' \<in> set (nodes graph_triangle)"
    by code_simp+
  have 2: "shortestPath graph_triangle ''a'' ''c'' = Some (Inr ([''a'', ''b'', ''c''], 2))"
    by code_simp
  from shortestPath_minimal [OF 1 graph_triangle_reachable] 1(1,2) 2 show ?thesis
    by (simp only: simp_thms)
qed

definition graph_empty_a :: graph where
  "graph_empty_a = addEdge emptyGraph [] ''a'' None None"

text \<open>
  Claim C3 at a graph with the empty string as a node. With the single edge from the
  empty string to a (weight unset, so 1) the weights are nonnegative, both endpoints are
  nodes and the two-node path from the empty string to a, of weight 1, follows the edge;
  but \<^verbatim>\<open>shortestPath("", "a")\<close> fails with the no-path error: the predecessor of a is the
  empty string, which the loop condition \<^verbatim>\<open>while (p[node])\<close> of \<^verbatim>\<open>path()\<close> takes for a
  missing predecessor.
\<close>

theorem shortestPath_empty_identifier:
  "nonneg_weights graph_empty_a \<and> nodes graph_empty_a = [[], ''a'']
   \<and> is_path graph_empty_a [] [[], ''a''] ''a'' \<and> path_weight graph_empty_a [[], ''a''] = 1
   \<and> shortestPath graph_empty_a [] ''a'' = Some (Inl (Error ''No path found''))"
  by code_simp

section \<open>Graphs built through the interface\<close>

text \<open>
  The graphs a caller can build: the empty graph, changed by the mutators of the
  interface (\<^verbatim>\<open>deserialize\<close> and the constructor are sequences of \<^verbatim>\<open>addNode\<close> and
  \<^verbatim>\<open>addEdge\<close>). In all of them the targets of the edges are keys of the adjacency table.
\<close>

inductive constructible :: "graph \<Rightarrow> bool" where
  empty: "constructible emptyGraph"
| add_node: "constructible g \<Longrightarrow> constructible (addNode g n)"
| remove_node: "constructible g \<Longrightarrow> constructible (removeNode g n)"
| add_edge: "constructible g \<Longrightarrow> constructible (addEdge g u v w i)"
| remove_edge: "constructible g \<Longrightarrow> constructible (removeEdge g u v)"
| set_weight: "constructible g \<Longrightarrow> constructible (setEdgeWeight g u v x)"
| set_id: "constructible g \<Longrightarrow> constructible (setEdgeId g u v j)"

lemma constructible_targets_are_keys: "constructible g \<Longrightarrow> targets_are_keys g"
proof (induction rule: constructible.induct)
  case empty
  show ?case by (rule targets_are_keys_emptyGraph)
next
  case (add_node g n)
  then show ?case by (simp add: targets_are_keys_addNode)
next
  case (remove_node g n)
  then show ?case by (simp add: targets_are_keys_removeNode)
next
  case (add_edge g u v w i)
  then show ?case by (simp add: targets_are_keys_addEdge)
next
  case (remove_edge g u v)
  then show ?case by (simp add: targets_are_keys_removeEdge)
next
  case (set_weight g u v x)
  then show ?case by (simp add: targets_are_keys_setEdgeWeight)
next
  case (set_id g u v j)
  then show ?case by (simp add: targets_are_keys_setEdgeId)
qed

lemma constructible_foldl_addNode: "constructible g \<Longrightarrow> constructible (foldl addNode g ns)"
  by (induction ns arbitrary: g) (simp_all add: constructible.add_node)

lemma constructible_deserialize: "constructible g \<Longrightarrow> constructible (deserialize g s)"
proof -
  have *: "constructible h \<Longrightarrow>
      constructible (foldl (\<lambda>g' link. addEdge g' (link_source link) (link_target link) (Some (link_weight link)) None) h ls)"
    for h ls
    by (induction ls arbitrary: h) (simp_all add: constructible.add_edge)
  assume "constructible g"
  then have "constructible (foldl addNode g (node_ids s))"
    by (rule constructible_foldl_addNode)
  then show "constructible (deserialize g s)"
    unfolding deserialize_def by (rule *)
qed

end
